theory Spec2Isabelle
  imports Complex_Main
begin

section \<open>The rate limiter of \<^verbatim>\<open>src/main.py\<close>\<close>

text \<open>
  The development embeds the two utility functions of \<^verbatim>\<open>src/main.py\<close> that carry
  the admission decision: \<^verbatim>\<open>get_client_key\<close> (lines 39-41) and
  \<^verbatim>\<open>check_rate_limit\<close> (lines 44-67), together with the module constants they read
  (lines 12-17).

  Numbers. Python's \<^verbatim>\<open>int\<close> is \<^typ>\<open>int\<close>. Python's \<^verbatim>\<open>float\<close> (the clock
  reading of \<^verbatim>\<open>time.time()\<close>, the token count, the refill rate) is an IEEE double,
  carried here by the \<^typ>\<open>real\<close> it denotes, and \<^verbatim>\<open>check_rate_limit\<close> is embedded
  twice. In the exact embedding (\<open>check_rate_limit_with\<close>) the arithmetic of the source is
  the arithmetic of the reals; it carries the properties that rounding does not decide:
  which bucket is written, the order of the steps, and bounds that rounding to nearest
  keeps because it is monotone and leaves the bounds themselves (0, 1, the capacity)
  fixed. In the double embedding (\<open>check_rate_limit_double\<close>) every \<^verbatim>\<open>+\<close>, \<^verbatim>\<open>-\<close>,
  \<^verbatim>\<open>*\<close> and \<^verbatim>\<open>/\<close> of the source is the exact operation followed by rounding to the
  nearest double, ties to even; it carries the properties that rounding decides: the
  retry value of line 67 and what a wait of that many seconds achieves. Overflow to
  infinity and NaN are outside both embeddings.

  Effects. \<^verbatim>\<open>time.time()\<close> is the parameter \<open>now\<close>; the module-level dictionary
  \<^verbatim>\<open>rate_limit_store\<close> is passed in and returned. Each key owns a dictionary object
  of its own (created at line 48), so a map from keys to bucket records loses no aliasing.
\<close>

subsection \<open>Python values\<close>

datatype py_error = ZeroDivisionError

text \<open>\<^verbatim>\<open>int(x)\<close> on a float truncates towards zero.\<close>

definition py_int :: "real \<Rightarrow> int" where
  "py_int x = (if 0 \<le> x then \<lfloor>x\<rfloor> else \<lceil>x\<rceil>)"

subsection \<open>Configuration (lines 12-14)\<close>

definition RATE_LIMIT :: int where
  "RATE_LIMIT = 43"

definition BURST_LIMIT :: int where
  "BURST_LIMIT = 11"

definition REFILL_RATE :: real where
  "REFILL_RATE = real_of_int RATE_LIMIT / 60"

subsection \<open>The store (line 17) and its buckets (lines 48-51)\<close>

record bucket =
  tokens :: real
  last_refill :: real

type_synonym store = "string \<Rightarrow> bucket option"

text \<open>The store of a starting process is the empty dictionary.\<close>

definition rate_limit_store :: store where
  "rate_limit_store = Map.empty"

subsection \<open>\<^verbatim>\<open>get_client_key\<close> (lines 39-41)\<close>

text \<open>
  The function reads \<^verbatim>\<open>request.client.host\<close> only; a request is modelled by that
  path of attributes.
\<close>

record address =
  host :: string

record request =
  client :: address

definition get_client_key :: "request \<Rightarrow> string \<Rightarrow> string" where
  "get_client_key req user_id = (let ip = host (client req) in user_id @ ''-'' @ ip)"

subsection \<open>\<^verbatim>\<open>check_rate_limit\<close> (lines 44-67)\<close>

text \<open>
  The body is split at its blank lines. The capacity and the refill rate, module
  constants in the source, are parameters here, so that a property can be stated for
  every configuration; \<open>check_rate_limit\<close> below fixes them to the source's values.
\<close>

text \<open>Lines 47-53: the bucket the call works on, created full when the key is new.\<close>

definition lookup_or_create :: "int \<Rightarrow> real \<Rightarrow> string \<Rightarrow> store \<Rightarrow> bucket" where
  "lookup_or_create burst now key s =
     (case s key of
        None \<Rightarrow> \<lparr>tokens = real_of_int burst, last_refill = now\<rparr>
      | Some b \<Rightarrow> b)"

text \<open>Lines 56-60: the refill. The elapsed time is the plain difference.\<close>

definition refill_bucket :: "int \<Rightarrow> real \<Rightarrow> real \<Rightarrow> bucket \<Rightarrow> bucket" where
  "refill_bucket burst rate now b =
     (let elapsed = now - last_refill b;
          refill = elapsed * rate
      in b\<lparr>tokens := min (real_of_int burst) (tokens b + refill), last_refill := now\<rparr>)"

text \<open>
  Lines 62-67: the decision. The division of line 66 raises when the rate is zero; the
  bucket has been written by then.
\<close>

definition consume :: "real \<Rightarrow> bucket \<Rightarrow> bucket \<times> (py_error + bool \<times> int)" where
  "consume rate b =
     (if tokens b \<ge> 1 then (b\<lparr>tokens := tokens b - 1\<rparr>, Inr (True, 0))
      else if rate = 0 then (b, Inl ZeroDivisionError)
      else (let retry_after = (1 - tokens b) / rate
            in (b, Inr (False, py_int retry_after + 1))))"

definition check_rate_limit_with ::
  "int \<Rightarrow> real \<Rightarrow> real \<Rightarrow> string \<Rightarrow> store \<Rightarrow> store \<times> (py_error + bool \<times> int)" where
  "check_rate_limit_with burst rate now key s =
     (let bucket0 = lookup_or_create burst now key s;
          (bucket1, res) = consume rate (refill_bucket burst rate now bucket0)
      in (s(key \<mapsto> bucket1), res))"

definition check_rate_limit :: "real \<Rightarrow> string \<Rightarrow> store \<Rightarrow> store \<times> (py_error + bool \<times> int)" where
  "check_rate_limit now key s = check_rate_limit_with BURST_LIMIT REFILL_RATE now key s"

subsection \<open>Successive calls\<close>

text \<open>
  The endpoint (lines 81-136) calls \<^verbatim>\<open>check_rate_limit\<close> once per request and
  catches every exception, so the store one call leaves is the store the next call finds.
  A run is the list of (clock reading, key) pairs of the successive calls.
\<close>

fun run_calls ::
  "int \<Rightarrow> real \<Rightarrow> store \<Rightarrow> (real \<times> string) list \<Rightarrow> store \<times> (py_error + bool \<times> int) list" where
  "run_calls burst rate s [] = (s, [])"
| "run_calls burst rate s (c # cs) =
     (let (s1, r) = check_rate_limit_with burst rate (fst c) (snd c) s;
          (s2, rs) = run_calls burst rate s1 cs
      in (s2, r # rs))"

section \<open>Double-precision arithmetic\<close>

text \<open>
  A double is a real of the form \<open>m * 2 ^ e\<close> with \<open>\<bar>m\<bar> < 2 ^ 53\<close> and
  \<open>- 1074 \<le> e\<close>. \<open>rne\<close> rounds a real to the nearest integer, a tie to the even one.
  \<open>dexp x\<close> is the binade of \<open>x\<close>: the largest \<open>k\<close> from -1022 to 1023 with
  \<open>2 ^ k \<le> \<bar>x\<bar>\<close>, and -1022 below the normal range, where the spacing of the doubles
  stays \<open>2 ^ - 1074\<close> (gradual underflow). \<open>round_double x\<close> is the double nearest to
  \<open>x\<close>, for \<open>\<bar>x\<bar>\<close> below the overflow threshold.
\<close>

definition rne :: "real \<Rightarrow> int" where
  "rne y = (let f = \<lfloor>y\<rfloor>; d = y - of_int f
            in if d < 1 / 2 then f else if 1 / 2 < d then f + 1
               else if even f then f else f + 1)"

definition dexp :: "real \<Rightarrow> int" where
  "dexp x = Max (insert (- 1022) {k \<in> {- 1022..1023}. 2 powi k \<le> \<bar>x\<bar>})"

definition round_double :: "real \<Rightarrow> real" where
  "round_double x = of_int (rne (x / 2 powi (dexp x - 52))) * 2 powi (dexp x - 52)"

text \<open>The four operations of Python floats: the exact result, rounded once.\<close>

definition fadd :: "real \<Rightarrow> real \<Rightarrow> real" where
  "fadd x y = round_double (x + y)"

definition fsub :: "real \<Rightarrow> real \<Rightarrow> real" where
  "fsub x y = round_double (x - y)"

definition fmul :: "real \<Rightarrow> real \<Rightarrow> real" where
  "fmul x y = round_double (x * y)"

definition fdiv :: "real \<Rightarrow> real \<Rightarrow> real" where
  "fdiv x y = round_double (x / y)"

subsection \<open>\<^verbatim>\<open>check_rate_limit\<close> in doubles\<close>

text \<open>
  The source's function with its own constants, operation by operation. Line 14 divides
  two integers, which Python rounds once to a double. The integer 11 that a new bucket
  holds (line 49), and that \<^verbatim>\<open>min\<close> returns at the cap (line 59), converts to a double
  exactly, so a token count is a real in either case; the comparisons of lines 59 and 62
  are exact in Python. The rate is not zero, so line 66 does not raise.
\<close>

definition REFILL_RATE_double :: real where
  "REFILL_RATE_double = fdiv (real_of_int RATE_LIMIT) 60"

definition refill_bucket_double :: "real \<Rightarrow> bucket \<Rightarrow> bucket" where
  "refill_bucket_double now b =
     (let elapsed = fsub now (last_refill b);
          refill = fmul elapsed REFILL_RATE_double
      in b\<lparr>tokens := min (real_of_int BURST_LIMIT) (fadd (tokens b) refill), last_refill := now\<rparr>)"

definition consume_double :: "bucket \<Rightarrow> bucket \<times> (bool \<times> int)" where
  "consume_double b =
     (if tokens b \<ge> 1 then (b\<lparr>tokens := fsub (tokens b) 1\<rparr>, (True, 0))
      else (let retry_after = fdiv (fsub 1 (tokens b)) REFILL_RATE_double
            in (b, (False, py_int retry_after + 1))))"

definition check_rate_limit_double :: "real \<Rightarrow> string \<Rightarrow> store \<Rightarrow> store \<times> (bool \<times> int)" where
  "check_rate_limit_double now key s =
     (let bucket0 = lookup_or_create BURST_LIMIT now key s;
          (bucket1, res) = consume_double (refill_bucket_double now bucket0)
      in (s(key \<mapsto> bucket1), res))"

fun run_calls_double :: "store \<Rightarrow> (real \<times> string) list \<Rightarrow> store \<times> (bool \<times> int) list" where
  "run_calls_double s [] = (s, [])"
| "run_calls_double s (c # cs) =
     (let (s1, r) = check_rate_limit_double (fst c) (snd c) s;
          (s2, rs) = run_calls_double s1 cs
      in (s2, r # rs))"

section \<open>Basic facts\<close>

subsection \<open>One call\<close>

lemma consume_last_refill: "last_refill (fst (consume rate b)) = last_refill b"
  by (simp add: consume_def Let_def)

lemma refill_last_refill: "last_refill (refill_bucket burst rate now b) = now"
  by (simp add: refill_bucket_def Let_def)

lemma check_store_key:
  "fst (check_rate_limit_with burst rate now key s) key =
     Some (fst (consume rate (refill_bucket burst rate now (lookup_or_create burst now key s))))"
  by (simp add: check_rate_limit_with_def Let_def split: prod.splits)

lemma check_store_other:
  "k \<noteq> key \<Longrightarrow> fst (check_rate_limit_with burst rate now key s) k = s k"
  by (simp add: check_rate_limit_with_def Let_def split: prod.splits)

lemma check_result:
  "snd (check_rate_limit_with burst rate now key s) =
     snd (consume rate (refill_bucket burst rate now (lookup_or_create burst now key s)))"
  by (simp add: check_rate_limit_with_def Let_def split: prod.splits)

lemmas crl_defs = check_rate_limit_def check_rate_limit_with_def lookup_or_create_def
      refill_bucket_def consume_def Let_def BURST_LIMIT_def REFILL_RATE_def RATE_LIMIT_def py_int_def

lemma refill_tokens:
  "tokens (refill_bucket burst rate now b) =
     min (real_of_int burst) (tokens b + (now - last_refill b) * rate)"
  by (simp add: refill_bucket_def Let_def)

lemma consume_tokens_le: "tokens (fst (consume rate b)) \<le> tokens b"
  by (simp add: consume_def Let_def)

lemma consume_rejects:
  "snd (consume rate b) = Inr (False, r) \<Longrightarrow>
     fst (consume rate b) = b \<and> tokens b < 1 \<and> rate \<noteq> 0 \<and> r = py_int ((1 - tokens b) / rate) + 1"
  by (auto simp: consume_def Let_def split: if_splits)

lemma consume_admits:
  "1 \<le> tokens b \<Longrightarrow> consume rate b = (b\<lparr>tokens := tokens b - 1\<rparr>, Inr (True, 0))"
  by (simp add: consume_def)

lemma py_int_pos: "0 \<le> x \<Longrightarrow> py_int x = \<lfloor>x\<rfloor>"
  by (simp add: py_int_def)

lemma floor_succ_ceiling:
  fixes x :: real
  shows "(x \<notin> \<int> \<longrightarrow> \<lfloor>x\<rfloor> + 1 = \<lceil>x\<rceil>) \<and> (x \<in> \<int> \<longrightarrow> \<lfloor>x\<rfloor> + 1 = \<lceil>x\<rceil> + 1)"
proof (cases "x \<in> \<int>")
  case True
  then obtain z :: int where "x = of_int z" by (auto elim: Ints_cases)
  then show ?thesis by simp
next
  case False
  then have "x \<noteq> of_int \<lfloor>x\<rfloor>" by (metis Ints_of_int)
  then show ?thesis using False by (simp add: ceiling_altdef)
qed

subsection \<open>Calls at one clock reading\<close>

lemma run_calls_append:
  "run_calls burst rate s (xs @ ys) =
     (fst (run_calls burst rate (fst (run_calls burst rate s xs)) ys),
      snd (run_calls burst rate s xs) @ snd (run_calls burst rate (fst (run_calls burst rate s xs)) ys))"
  by (induction xs arbitrary: s) (simp_all add: Let_def split: prod.splits)

lemma first_call_on_new_key:
  assumes "1 \<le> burst" and "s key = None"
  shows "check_rate_limit_with burst rate now key s =
           (s(key \<mapsto> \<lparr>tokens = real_of_int burst - 1, last_refill = now\<rparr>), Inr (True, 0))"
  using assms
  by (simp add: check_rate_limit_with_def lookup_or_create_def refill_bucket_def consume_def Let_def)

lemma same_instant_call:
  assumes "s key = Some \<lparr>tokens = real (Suc n), last_refill = now\<rparr>" and "int (Suc n) \<le> burst"
  shows "check_rate_limit_with burst rate now key s =
           (s(key \<mapsto> \<lparr>tokens = real n, last_refill = now\<rparr>), Inr (True, 0))"
proof -
  have "real (Suc n) \<le> real_of_int burst" using assms(2) by linarith
  then show ?thesis using assms(1)
    by (simp add: check_rate_limit_with_def lookup_or_create_def refill_bucket_def consume_def
        Let_def min_def)
qed

lemma same_instant_run:
  "s key = Some \<lparr>tokens = real n, last_refill = now\<rparr> \<Longrightarrow> int n \<le> burst \<Longrightarrow>
   run_calls burst rate s (replicate n (now, key)) =
     (s(key \<mapsto> \<lparr>tokens = 0, last_refill = now\<rparr>), replicate n (Inr (True, 0)))"
proof (induction n arbitrary: s)
  case 0
  then have "s(key \<mapsto> \<lparr>tokens = 0, last_refill = now\<rparr>) = s" by (simp add: map_upd_triv)
  then show ?case by simp
next
  case (Suc n)
  let ?s1 = "s(key \<mapsto> \<lparr>tokens = real n, last_refill = now\<rparr>)"
  have step: "check_rate_limit_with burst rate now key s = (?s1, Inr (True, 0))"
    using Suc.prems by (rule same_instant_call)
  have "run_calls burst rate ?s1 (replicate n (now, key)) =
          (?s1(key \<mapsto> \<lparr>tokens = 0, last_refill = now\<rparr>), replicate n (Inr (True, 0)))"
    using Suc.prems(2) by (intro Suc.IH) simp_all
  then have rest: "run_calls burst rate ?s1 (replicate n (now, key)) =
          (s(key \<mapsto> \<lparr>tokens = 0, last_refill = now\<rparr>), replicate n (Inr (True, 0)))"
    by (simp only: fun_upd_upd)
  show ?case
    by (simp only: replicate_Suc run_calls.simps fst_conv snd_conv step rest Let_def prod.case)
qed

lemma empty_bucket_call:
  assumes "1 \<le> burst" and "rate \<noteq> 0" and "s key = Some \<lparr>tokens = 0, last_refill = now\<rparr>"
  shows "check_rate_limit_with burst rate now key s =
           (s, Inr (False, py_int (1 / rate) + 1))"
proof -
  have "s(key \<mapsto> \<lparr>tokens = 0, last_refill = now\<rparr>) = s" using assms(3) by (simp add: map_upd_triv)
  then show ?thesis using assms
    by (simp add: check_rate_limit_with_def lookup_or_create_def refill_bucket_def consume_def Let_def)
qed

lemma burst_run:
  assumes "1 \<le> burst" and "s key = None"
  shows "run_calls burst rate s (replicate (nat burst) (now, key)) =
           (s(key \<mapsto> \<lparr>tokens = 0, last_refill = now\<rparr>), replicate (nat burst) (Inr (True, 0)))"
proof -
  obtain n where n: "nat burst = Suc n" using assms(1) by (cases "nat burst") auto
  then have b: "real_of_int burst - 1 = real n" using assms(1) by linarith
  let ?s1 = "s(key \<mapsto> \<lparr>tokens = real n, last_refill = now\<rparr>)"
  have step: "check_rate_limit_with burst rate now key s = (?s1, Inr (True, 0))"
    using first_call_on_new_key [of burst s key rate now] assms b by simp
  have "int n \<le> burst" using n by linarith
  then have "run_calls burst rate ?s1 (replicate n (now, key)) =
          (?s1(key \<mapsto> \<lparr>tokens = 0, last_refill = now\<rparr>), replicate n (Inr (True, 0)))"
    by (intro same_instant_run) simp_all
  then have rest: "run_calls burst rate ?s1 (replicate n (now, key)) =
          (s(key \<mapsto> \<lparr>tokens = 0, last_refill = now\<rparr>), replicate n (Inr (True, 0)))"
    by (simp only: fun_upd_upd)
  show ?thesis
    by (simp only: n replicate_Suc run_calls.simps fst_conv snd_conv step rest Let_def prod.case)
qed

subsection \<open>Bounds kept by a run\<close>

lemma run_calls_store_Cons:
  "fst (run_calls burst rate s (c # cs)) =
     fst (run_calls burst rate (fst (check_rate_limit_with burst rate (fst c) (snd c) s)) cs)"
  by (simp add: Let_def split: prod.splits)

lemma check_keeps_upper:
  assumes "\<And>k b. s k = Some b \<Longrightarrow> tokens b \<le> real_of_int burst"
    and "fst (check_rate_limit_with burst rate now key s) k = Some b"
  shows "tokens b \<le> real_of_int burst"
proof (cases "k = key")
  case True
  let ?new = "refill_bucket burst rate now (lookup_or_create burst now key s)"
  from assms(2) True have "b = fst (consume rate ?new)" by (simp add: check_store_key)
  moreover have "tokens (fst (consume rate ?new)) \<le> tokens ?new" by (rule consume_tokens_le)
  moreover have "tokens ?new \<le> real_of_int burst" by (simp add: refill_tokens)
  ultimately show ?thesis by simp
next
  case False
  with assms(2) have "s k = Some b" by (simp add: check_store_other)
  then show ?thesis by (rule assms(1))
qed

lemma run_keeps_upper:
  "(\<And>k b. s k = Some b \<Longrightarrow> tokens b \<le> real_of_int burst) \<Longrightarrow>
   fst (run_calls burst rate s cs) k = Some b \<Longrightarrow> tokens b \<le> real_of_int burst"
proof (induction cs arbitrary: s)
  case Nil
  then show ?case by simp
next
  case (Cons c cs)
  show ?case
  proof (rule Cons.IH)
    show "fst (run_calls burst rate (fst (check_rate_limit_with burst rate (fst c) (snd c) s)) cs) k = Some b"
      using Cons.prems(2) by (simp only: run_calls_store_Cons)
  next
    fix k' b'
    assume "fst (check_rate_limit_with burst rate (fst c) (snd c) s) k' = Some b'"
    with Cons.prems(1) show "tokens b' \<le> real_of_int burst"
      by (rule check_keeps_upper)
  qed
qed

lemma consume_nonneg: "0 \<le> tokens b \<Longrightarrow> 0 \<le> tokens (fst (consume rate b))"
  by (simp add: consume_def Let_def)

lemma check_keeps_lower:
  assumes "0 \<le> burst" and "0 \<le> rate" and "t \<le> now"
    and "\<And>k b. s k = Some b \<Longrightarrow> 0 \<le> tokens b \<and> last_refill b \<le> t"
    and "fst (check_rate_limit_with burst rate now key s) k = Some b"
  shows "0 \<le> tokens b \<and> last_refill b \<le> now"
proof (cases "k = key")
  case True
  let ?old = "lookup_or_create burst now key s"
  let ?new = "refill_bucket burst rate now ?old"
  have old: "0 \<le> tokens ?old \<and> last_refill ?old \<le> now"
  proof (cases "s key")
    case None
    then show ?thesis using assms(1) by (simp add: lookup_or_create_def)
  next
    case (Some b0)
    with assms(4) [of key b0] assms(3) show ?thesis by (simp add: lookup_or_create_def)
  qed
  then have "0 \<le> (now - last_refill ?old) * rate" using assms(2) by simp
  with old assms(1) have "0 \<le> tokens ?new" by (simp add: refill_tokens)
  then have "0 \<le> tokens (fst (consume rate ?new))" by (rule consume_nonneg)
  moreover from assms(5) True have "b = fst (consume rate ?new)" by (simp add: check_store_key)
  ultimately show ?thesis by (simp add: consume_last_refill refill_last_refill)
next
  case False
  with assms(5) have "s k = Some b" by (simp add: check_store_other)
  with assms(4) [of k b] assms(3) show ?thesis by simp
qed

lemma run_keeps_lower:
  "0 \<le> burst \<Longrightarrow> 0 \<le> rate \<Longrightarrow> sorted (map fst cs) \<Longrightarrow> (\<forall>c \<in> set cs. t \<le> fst c) \<Longrightarrow>
   (\<And>k b. s k = Some b \<Longrightarrow> 0 \<le> tokens b \<and> last_refill b \<le> t) \<Longrightarrow>
   fst (run_calls burst rate s cs) k = Some b \<Longrightarrow> 0 \<le> tokens b"
proof (induction cs arbitrary: s t)
  case Nil
  then show ?case by simp
next
  case (Cons c cs)
  show ?case
  proof (rule Cons.IH [where t = "fst c"])
    show "0 \<le> burst" "0 \<le> rate" by fact+
    show "sorted (map fst cs)" using Cons.prems(3) by simp
    show "\<forall>c' \<in> set cs. fst c \<le> fst c'" using Cons.prems(3) by simp
    show "fst (run_calls burst rate (fst (check_rate_limit_with burst rate (fst c) (snd c) s)) cs) k = Some b"
      using Cons.prems(6) by (simp only: run_calls_store_Cons)
  next
    fix k' b'
    assume "fst (check_rate_limit_with burst rate (fst c) (snd c) s) k' = Some b'"
    moreover have "t \<le> fst c" using Cons.prems(4) by simp
    ultimately show "0 \<le> tokens b' \<and> last_refill b' \<le> fst c"
      using Cons.prems(1,2,5) check_keeps_lower [of burst rate t "fst c" s "snd c" k' b'] by blast
  qed
qed

subsection \<open>Rounding to the nearest double\<close>

lemma dexp_finite: "finite (insert (- 1022) {k \<in> {- 1022..1023}. 2 powi k \<le> \<bar>x::real\<bar>})"
proof -
  have "{k \<in> {- 1022..1023}. 2 powi k \<le> \<bar>x\<bar>} \<subseteq> {- 1022..1023}" by blast
  then have "finite {k \<in> {- 1022..1023}. 2 powi k \<le> \<bar>x\<bar>}"
    by (rule finite_subset) simp
  then show ?thesis by (rule finite.insertI)
qed

lemma dexp_range: "- 1022 \<le> dexp x \<and> dexp x \<le> 1023"
proof -
  let ?S = "insert (- 1022) {k \<in> {- 1022..1023}. 2 powi k \<le> \<bar>x\<bar>}"
  have "dexp x \<in> ?S" unfolding dexp_def by (rule Max_in [OF dexp_finite]) blast
  then show ?thesis by auto
qed

lemma dexp_ge: "- 1022 \<le> j \<Longrightarrow> j \<le> 1023 \<Longrightarrow> 2 powi j \<le> \<bar>x\<bar> \<Longrightarrow> j \<le> dexp x"
  unfolding dexp_def by (rule Max_ge [OF dexp_finite]) simp

lemma dexp_lower: "2 powi (- 1022) \<le> \<bar>x\<bar> \<Longrightarrow> 2 powi (dexp x) \<le> \<bar>x\<bar>"
proof -
  assume a: "2 powi (- 1022) \<le> \<bar>x\<bar>"
  let ?S = "insert (- 1022) {k \<in> {- 1022..1023}. 2 powi k \<le> \<bar>x\<bar>}"
  have "dexp x \<in> ?S" unfolding dexp_def by (rule Max_in [OF dexp_finite]) blast
  then show ?thesis using a by auto
qed

lemma pow2_le_lt: "(2::real) powi j \<le> y \<Longrightarrow> y < 2 powi (k + 1) \<Longrightarrow> j \<le> k"
proof (rule ccontr)
  assume a: "2 powi j \<le> y" "y < 2 powi (k + 1)" and "\<not> j \<le> k"
  then have "k + 1 \<le> j" by simp
  then have "(2::real) powi (k + 1) \<le> 2 powi j" by (intro power_int_increasing) simp_all
  with a show False by simp
qed

lemma dexp_eqI:
  assumes "- 1022 \<le> k" "k \<le> 1023" "2 powi k \<le> \<bar>x\<bar>" "\<bar>x\<bar> < 2 powi (k + 1)"
  shows "dexp x = k"
proof -
  have "k \<le> dexp x" using assms(1-3) by (rule dexp_ge)
  moreover have "dexp x \<le> k"
  proof -
    have "2 powi (- 1022) \<le> \<bar>x\<bar>"
      using assms(1,3) power_int_increasing [of "- 1022" k "2::real"] by simp
    then have "2 powi (dexp x) \<le> \<bar>x\<bar>" by (rule dexp_lower)
    then show ?thesis using assms(4) by (rule pow2_le_lt)
  qed
  ultimately show ?thesis by simp
qed

lemma rd_eval:
  assumes "- 1022 \<le> k" "k \<le> 1023" "2 powi k \<le> \<bar>x\<bar>" "\<bar>x\<bar> < 2 powi (k + 1)"
  shows "round_double x = of_int (rne (x / 2 powi (k - 52))) * 2 powi (k - 52)"
  using dexp_eqI [OF assms] by (simp add: round_double_def)

lemma rne_of_int: "rne (of_int n) = n"
  by (simp add: rne_def)

lemma rne_ge_floor: "\<lfloor>y\<rfloor> \<le> rne y"
  by (simp add: rne_def Let_def)

lemma rne_ge: "of_int n \<le> y \<Longrightarrow> n \<le> rne y"
proof -
  assume "of_int n \<le> y"
  then have "n \<le> \<lfloor>y\<rfloor>" by (simp add: le_floor_iff)
  then show ?thesis using rne_ge_floor [of y] by linarith
qed

lemma pow2_split: "(2::real) powi (a + b) = 2 powi a * 2 powi b"
  by (rule power_int_add) simp

lemma rne_err: "\<bar>of_int (rne y) - y\<bar> \<le> 1 / 2"
proof -
  have "of_int \<lfloor>y\<rfloor> \<le> y" "y < of_int \<lfloor>y\<rfloor> + 1" by linarith+
  then show ?thesis by (auto simp: rne_def Let_def)
qed

lemma rne_half_up:
  assumes "even n" and "of_int n - 1 / 2 \<le> y"
  shows "n \<le> rne y"
proof (cases "of_int n \<le> y")
  case True
  then show ?thesis by (rule rne_ge)
next
  case False
  then have fl: "\<lfloor>y\<rfloor> = n - 1" using assms(2) by (simp add: floor_eq_iff)
  have "odd (n - 1)" using assms(1) by simp
  then show ?thesis using assms(2) fl by (simp add: rne_def Let_def)
qed

lemma dexp_le: "- 1022 \<le> k \<Longrightarrow> \<bar>x\<bar> < 2 powi (k + 1) \<Longrightarrow> dexp x \<le> k"
proof -
  assume k: "- 1022 \<le> k" and x: "\<bar>x\<bar> < 2 powi (k + 1)"
  let ?S = "insert (- 1022) {k \<in> {- 1022..1023}. 2 powi k \<le> \<bar>x\<bar>}"
  have "dexp x \<in> ?S" unfolding dexp_def by (rule Max_in [OF dexp_finite]) blast
  then consider "dexp x = - 1022" | "2 powi (dexp x) \<le> \<bar>x\<bar>" by blast
  then show ?thesis
  proof cases
    case 1
    then show ?thesis using k by simp
  next
    case 2
    then show ?thesis using x by (rule pow2_le_lt)
  qed
qed

lemma round_double_nonneg: "0 \<le> x \<Longrightarrow> 0 \<le> round_double x"
proof -
  assume "0 \<le> x"
  then have "of_int 0 \<le> x / 2 powi (dexp x - 52)" by simp
  then have "0 \<le> rne (x / 2 powi (dexp x - 52))" by (rule rne_ge)
  then show ?thesis by (simp add: round_double_def)
qed

lemma round_double_ge_pow:
  assumes "- 1022 \<le> j" "j \<le> 1023" "2 powi j \<le> x"
  shows "2 powi j \<le> round_double x"
proof -
  let ?e = "dexp x"
  have xpos: "\<bar>x\<bar> = x" using assms(3) zero_less_power_int [of "2::real" j] by linarith
  have je: "j \<le> ?e" using assms xpos by (intro dexp_ge) simp_all
  have "(2::real) powi (- 1022) \<le> 2 powi j" using assms(1) by (intro power_int_increasing) simp_all
  then have "2 powi (- 1022) \<le> \<bar>x\<bar>" using assms(3) xpos by linarith
  then have low: "2 powi ?e \<le> x" using dexp_lower [of x] xpos by simp
  have split: "(2::real) powi ?e = 2 ^ 52 * 2 powi (?e - 52)"
    using pow2_split [of 52 "?e - 52"] by simp
  have "(2::real) ^ 52 * 2 powi (?e - 52) \<le> x" using low split by simp
  then have "(2::real) ^ 52 \<le> x / 2 powi (?e - 52)"
    by (simp add: pos_le_divide_eq)
  then have "of_int (2 ^ 52) \<le> x / 2 powi (?e - 52)" by simp
  then have "2 ^ 52 \<le> rne (x / 2 powi (?e - 52))" by (rule rne_ge)
  then have "(2::real) ^ 52 \<le> of_int (rne (x / 2 powi (?e - 52)))"
    by (metis of_int_le_iff of_int_numeral of_int_power)
  then have "2 ^ 52 * 2 powi (?e - 52) \<le> round_double x"
    by (simp add: round_double_def)
  moreover have "(2::real) ^ 52 * 2 powi (?e - 52) = 2 powi ?e"
    using split by simp
  moreover have "(2::real) powi j \<le> 2 powi ?e" using je by (intro power_int_increasing) simp_all
  ultimately show ?thesis by linarith
qed

lemma round_double_ge_one: "1 \<le> x \<Longrightarrow> 1 \<le> round_double x"
  using round_double_ge_pow [of 0 x] by simp

lemma round_double_near_one:
  assumes "1 - 2 powi (- 54) \<le> x"
  shows "1 \<le> round_double x"
proof (cases "1 \<le> x")
  case True
  then show ?thesis by (rule round_double_ge_one)
next
  case False
  have half: "(1::real) / 2 \<le> 1 - 2 powi (- 54)" by simp
  have e: "dexp x = - 1"
    using assms False half by (intro dexp_eqI) simp_all
  have "of_int (2 ^ 53) - 1 / 2 \<le> x / 2 powi (- 1 - 52)"
    using assms by (simp add: field_simps)
  then have "2 ^ 53 \<le> rne (x / 2 powi (- 1 - 52))"
    by (intro rne_half_up) simp_all
  then have "(2::real) ^ 53 \<le> of_int (rne (x / 2 powi (- 1 - 52)))"
    by (metis of_int_le_iff of_int_numeral of_int_power)
  then show ?thesis by (simp add: round_double_def e)
qed

lemma round_double_err: "\<bar>round_double x - x\<bar> \<le> 2 powi (dexp x - 53)"
proof -
  let ?u = "(2::real) powi (dexp x - 52)"
  have u: "0 < ?u" by simp
  have "round_double x - x = (of_int (rne (x / ?u)) - x / ?u) * ?u"
    using u by (simp add: round_double_def field_simps)
  then have "\<bar>round_double x - x\<bar> = \<bar>of_int (rne (x / ?u)) - x / ?u\<bar> * ?u"
    using u by (simp add: abs_mult)
  also have "\<dots> \<le> 1 / 2 * ?u"
    using rne_err [of "x / ?u"] u by (intro mult_right_mono) simp_all
  also have "\<dots> = 2 powi (dexp x - 53)"
    using pow2_split [of "dexp x - 53" 1] by simp
  finally show ?thesis .
qed

lemma round_double_below_one:
  assumes "0 < x" "x \<le> 1"
  shows "x - round_double x \<le> 2 powi (- 54)"
proof (cases "x = 1")
  case True
  have "round_double 1 = 1" by (subst rd_eval [of 0]) (simp_all add: rne_def)
  then show ?thesis using True by simp
next
  case False
  then have "\<bar>x\<bar> < 2 powi (- 1 + 1)" using assms by simp
  then have "dexp x \<le> - 1" by (intro dexp_le) simp_all
  then have "(2::real) powi (dexp x - 53) \<le> 2 powi (- 54)"
    by (intro power_int_increasing) simp_all
  with round_double_err [of x] show ?thesis by linarith
qed

lemma round_double_zero: "round_double 0 = 0"
  by (simp add: round_double_def rne_def)

lemma round_double_int:
  assumes "\<bar>z\<bar> < 2 ^ 53"
  shows "round_double (of_int z) = of_int z"
proof (cases "z = 0")
  case True
  then show ?thesis by (simp add: round_double_zero)
next
  case False
  let ?e = "dexp (of_int z)"
  have "(2::real) powi 0 \<le> \<bar>of_int z\<bar>" using False by simp
  then have lo: "0 \<le> ?e" by (intro dexp_ge) simp_all
  have "\<bar>real_of_int z\<bar> < 2 ^ 53" using assms
    by (metis of_int_abs of_int_less_iff of_int_numeral of_int_power)
  then have "\<bar>real_of_int z\<bar> < 2 powi (52 + 1)" by simp
  then have hi: "?e \<le> 52" by (intro dexp_le) simp_all
  define n where "n = nat (52 - ?e)"
  have n: "52 - ?e = int n" using hi by (simp add: n_def)
  have "(2::real) powi (?e - 52) = inverse (2 powi (52 - ?e))"
    using power_int_minus [of "2::real" "52 - ?e"] by simp
  also have "\<dots> = inverse (2 ^ n)" by (simp add: n)
  finally have u: "(2::real) powi (?e - 52) = inverse (2 ^ n)" .
  have "of_int z / (2::real) powi (?e - 52) = of_int (z * 2 ^ n)"
    by (simp add: u field_simps)
  then have "rne (of_int z / 2 powi (?e - 52)) = z * 2 ^ n"
    by (simp only: rne_of_int)
  then show ?thesis by (simp add: round_double_def u)
qed

subsection \<open>One call in doubles\<close>

lemma rate_double_value: "REFILL_RATE_double = 6455159465897711 / 2 ^ 53"
  unfolding REFILL_RATE_double_def fdiv_def RATE_LIMIT_def
  by (subst rd_eval [of "- 1"]) (simp_all add: rne_def)

lemma rate_double_bounds: "1 / 2 \<le> REFILL_RATE_double \<and> REFILL_RATE_double \<le> 1"
  by (simp add: rate_double_value)

lemma rate_double_fixed: "round_double REFILL_RATE_double = REFILL_RATE_double"
  unfolding rate_double_value
  by (subst rd_eval [of "- 1"]) (simp_all add: rne_def)

lemma round_double_one: "round_double 1 = 1"
  using round_double_int [of 1] by simp

lemma refill_double_last_refill: "last_refill (refill_bucket_double now b) = now"
  by (simp add: refill_bucket_double_def Let_def)

lemma refill_double_tokens:
  "tokens (refill_bucket_double now b) =
     min (real_of_int BURST_LIMIT)
       (fadd (tokens b) (fmul (fsub now (last_refill b)) REFILL_RATE_double))"
  by (simp add: refill_bucket_double_def Let_def)

lemma check_double_store_key:
  "fst (check_rate_limit_double now key s) key =
     Some (fst (consume_double (refill_bucket_double now (lookup_or_create BURST_LIMIT now key s))))"
  by (simp add: check_rate_limit_double_def Let_def split: prod.splits)

lemma check_double_result:
  "snd (check_rate_limit_double now key s) =
     snd (consume_double (refill_bucket_double now (lookup_or_create BURST_LIMIT now key s)))"
  by (simp add: check_rate_limit_double_def Let_def split: prod.splits)

lemma consume_double_rejects:
  "snd (consume_double b) = (False, r) \<Longrightarrow>
     fst (consume_double b) = b \<and> tokens b < 1 \<and>
     r = py_int (fdiv (fsub 1 (tokens b)) REFILL_RATE_double) + 1"
  by (auto simp: consume_double_def Let_def split: if_splits)

lemma consume_double_admits:
  "1 \<le> tokens b \<Longrightarrow> consume_double b = (b\<lparr>tokens := fsub (tokens b) 1\<rparr>, (True, 0))"
  by (simp add: consume_double_def)

lemma retry_quotient_nonneg:
  "t < 1 \<Longrightarrow> 0 \<le> fdiv (fsub 1 t) REFILL_RATE_double"
proof -
  assume "t < 1"
  then have "0 \<le> fsub 1 t" unfolding fsub_def by (intro round_double_nonneg) simp
  moreover have "0 < REFILL_RATE_double" using rate_double_bounds by linarith
  ultimately have "0 \<le> fsub 1 t / REFILL_RATE_double" by simp
  then show ?thesis unfolding fdiv_def by (rule round_double_nonneg)
qed

lemma margin_split: "(1 - e) * d + e = d + e * (1 - d)" for e d :: real
  by (simp add: algebra_simps)

lemma rejected_call_double:
  assumes "check_rate_limit_double now key s = (s1, (False, r))"
  shows "\<exists>b1. s1 key = Some b1 \<and> tokens b1 < 1 \<and> last_refill b1 = now \<and>
           r = \<lfloor>fdiv (fsub 1 (tokens b1)) REFILL_RATE_double\<rfloor> + 1"
proof -
  let ?new = "refill_bucket_double now (lookup_or_create BURST_LIMIT now key s)"
  from assms have res: "snd (consume_double ?new) = (False, r)"
    using check_double_result [of now key s] by simp
  from assms have st: "s1 key = Some (fst (consume_double ?new))"
    using check_double_store_key [of now key s] by simp
  from consume_double_rejects [OF res]
  have same: "fst (consume_double ?new) = ?new" and low: "tokens ?new < 1"
    and r: "r = py_int (fdiv (fsub 1 (tokens ?new)) REFILL_RATE_double) + 1"
    by simp_all
  have "r = \<lfloor>fdiv (fsub 1 (tokens ?new)) REFILL_RATE_double\<rfloor> + 1"
    using r retry_quotient_nonneg [OF low] by (simp add: py_int_pos)
  with st same low show ?thesis by (simp add: refill_double_last_refill)
qed

subsection \<open>Runs in doubles\<close>

lemma run_calls_double_append:
  "run_calls_double s (xs @ ys) =
     (fst (run_calls_double (fst (run_calls_double s xs)) ys),
      snd (run_calls_double s xs) @ snd (run_calls_double (fst (run_calls_double s xs)) ys))"
  by (induction xs arbitrary: s) (simp_all add: Let_def split: prod.splits)

lemma call_double_rejected:
  assumes "lookup_or_create BURST_LIMIT now key s = b"
    and "round_double (now - last_refill b) = el"
    and "round_double (el * REFILL_RATE_double) = rf"
    and "round_double (tokens b + rf) = t" and "t < 1"
    and "round_double (1 - t) = u"
    and "round_double (u / REFILL_RATE_double) = q" and "0 \<le> q"
  shows "check_rate_limit_double now key s =
           (s(key \<mapsto> \<lparr>tokens = t, last_refill = now\<rparr>), (False, \<lfloor>q\<rfloor> + 1))"
proof -
  have new: "refill_bucket_double now b = \<lparr>tokens = t, last_refill = now\<rparr>"
    using assms(2-5)
    by (cases b) (simp add: refill_bucket_double_def fsub_def fmul_def fadd_def BURST_LIMIT_def)
  have "consume_double \<lparr>tokens = t, last_refill = now\<rparr> =
          (\<lparr>tokens = t, last_refill = now\<rparr>, (False, \<lfloor>q\<rfloor> + 1))"
    using assms(5-8) by (simp add: consume_double_def fsub_def fdiv_def py_int_pos)
  then show ?thesis
    by (simp add: check_rate_limit_double_def assms(1) new)
qed

lemma call_double_admitted:
  assumes "lookup_or_create BURST_LIMIT now key s = b"
    and "round_double (now - last_refill b) = el"
    and "round_double (el * REFILL_RATE_double) = rf"
    and "round_double (tokens b + rf) = t" and "1 \<le> t" and "t \<le> 11"
    and "round_double (t - 1) = t'"
  shows "check_rate_limit_double now key s =
           (s(key \<mapsto> \<lparr>tokens = t', last_refill = now\<rparr>), (True, 0))"
proof -
  have new: "refill_bucket_double now b = \<lparr>tokens = t, last_refill = now\<rparr>"
    using assms(2-6)
    by (cases b) (simp add: refill_bucket_double_def fsub_def fmul_def fadd_def BURST_LIMIT_def)
  have "consume_double \<lparr>tokens = t, last_refill = now\<rparr> =
          (\<lparr>tokens = t', last_refill = now\<rparr>, (True, 0))"
    using assms(5,7) by (simp add: consume_double_def fsub_def)
  then show ?thesis
    by (simp add: check_rate_limit_double_def assms(1) new)
qed

lemma same_instant_call_double:
  assumes "lookup_or_create BURST_LIMIT now key s = \<lparr>tokens = real (Suc n), last_refill = now\<rparr>"
    and "Suc n \<le> 11"
  shows "check_rate_limit_double now key s =
           (s(key \<mapsto> \<lparr>tokens = real n, last_refill = now\<rparr>), (True, 0))"
proof (rule call_double_admitted [OF assms(1)])
  show "round_double (now - last_refill \<lparr>tokens = real (Suc n), last_refill = now\<rparr>) = 0"
    by (simp add: round_double_zero)
  show "round_double (0 * REFILL_RATE_double) = 0" by (simp add: round_double_zero)
  have "round_double (real_of_int (int (Suc n))) = real_of_int (int (Suc n))"
    using assms(2) by (intro round_double_int) simp
  then show "round_double (tokens \<lparr>tokens = real (Suc n), last_refill = now\<rparr> + 0) = real (Suc n)"
    by simp
  show "1 \<le> real (Suc n)" by simp
  show "real (Suc n) \<le> 11" using assms(2) by simp
  have "round_double (real_of_int (int n)) = real_of_int (int n)"
    using assms(2) by (intro round_double_int) simp
  then show "round_double (real (Suc n) - 1) = real n" by simp
qed

lemma same_instant_run_double:
  "lookup_or_create BURST_LIMIT now key s = \<lparr>tokens = real (Suc n + m), last_refill = now\<rparr> \<Longrightarrow>
   Suc n + m \<le> 11 \<Longrightarrow>
   run_calls_double s (replicate (Suc n) (now, key)) =
     (s(key \<mapsto> \<lparr>tokens = real m, last_refill = now\<rparr>), replicate (Suc n) (True, 0))"
proof (induction n arbitrary: s)
  case 0
  then have step: "check_rate_limit_double now key s =
      (s(key \<mapsto> \<lparr>tokens = real m, last_refill = now\<rparr>), (True, 0))"
    by (intro same_instant_call_double) simp_all
  show ?case
    by (simp only: replicate_Suc replicate_0 run_calls_double.simps fst_conv snd_conv step
        Let_def prod.case)
next
  case (Suc n)
  let ?s1 = "s(key \<mapsto> \<lparr>tokens = real (Suc n + m), last_refill = now\<rparr>)"
  have step: "check_rate_limit_double now key s = (?s1, (True, 0))"
    using Suc.prems by (intro same_instant_call_double) simp_all
  have "run_calls_double ?s1 (replicate (Suc n) (now, key)) =
          (?s1(key \<mapsto> \<lparr>tokens = real m, last_refill = now\<rparr>), replicate (Suc n) (True, 0))"
    using Suc.prems(2) by (intro Suc.IH) (simp_all add: lookup_or_create_def)
  then have rest: "run_calls_double ?s1 (replicate (Suc n) (now, key)) =
          (s(key \<mapsto> \<lparr>tokens = real m, last_refill = now\<rparr>), replicate (Suc n) (True, 0))"
    by (simp only: fun_upd_upd)
  show ?case
    by (simp only: replicate_Suc [of "Suc n"] run_calls_double.simps fst_conv snd_conv step rest
        Let_def prod.case)
qed

lemma ten_calls: "run_calls_double rate_limit_store (replicate 10 (4096, ''u1-1.2.3.4'')) =
    ([''u1-1.2.3.4'' \<mapsto> \<lparr>tokens = 1, last_refill = 4096\<rparr>], replicate 10 (True, 0))"
proof -
  have "run_calls_double rate_limit_store (replicate (Suc 9) (4096, ''u1-1.2.3.4'')) =
      (rate_limit_store(''u1-1.2.3.4'' \<mapsto> \<lparr>tokens = real 1, last_refill = 4096\<rparr>),
       replicate (Suc 9) (True, 0))"
    by (rule same_instant_run_double)
      (simp_all add: lookup_or_create_def rate_limit_store_def BURST_LIMIT_def)
  then show ?thesis by (simp add: rate_limit_store_def)
qed

lemma eleven_calls: "run_calls_double rate_limit_store (replicate 11 (0, ''u1-1.2.3.4'')) =
    ([''u1-1.2.3.4'' \<mapsto> \<lparr>tokens = 0, last_refill = 0\<rparr>], replicate 11 (True, 0))"
proof -
  have "run_calls_double rate_limit_store (replicate (Suc 10) (0, ''u1-1.2.3.4'')) =
      (rate_limit_store(''u1-1.2.3.4'' \<mapsto> \<lparr>tokens = real 0, last_refill = 0\<rparr>),
       replicate (Suc 10) (True, 0))"
    by (rule same_instant_run_double)
      (simp_all add: lookup_or_create_def rate_limit_store_def BURST_LIMIT_def)
  then show ?thesis by (simp add: rate_limit_store_def)
qed

lemma empty_bucket_call_double:
  "check_rate_limit_double 0 ''u1-1.2.3.4'' [''u1-1.2.3.4'' \<mapsto> \<lparr>tokens = 0, last_refill = 0\<rparr>] =
     ([''u1-1.2.3.4'' \<mapsto> \<lparr>tokens = 0, last_refill = 0\<rparr>], (False, 2)) \<and>
   fdiv (fsub 1 0) REFILL_RATE_double = 6284092503307669 / 2 ^ 52"
proof -
  let ?s = "[''u1-1.2.3.4'' \<mapsto> \<lparr>tokens = 0, last_refill = 0 :: real\<rparr>]"
  let ?b = "\<lparr>tokens = 0, last_refill = 0 :: real\<rparr>"
  have el: "round_double (0 - last_refill ?b) = 0" by (simp add: round_double_zero)
  have rf: "round_double (0 * REFILL_RATE_double) = 0" by (simp add: round_double_zero)
  have sm: "round_double (tokens ?b + 0) = 0" by (simp add: round_double_zero)
  have u: "round_double (1 - 0) = 1" by (simp add: round_double_one)
  have q: "round_double (1 / REFILL_RATE_double) = 6284092503307669 / 2 ^ 52"
    unfolding rate_double_value by (subst rd_eval [of 0]) (simp_all add: rne_def)
  have "check_rate_limit_double 0 ''u1-1.2.3.4'' ?s =
      (?s(''u1-1.2.3.4'' \<mapsto> \<lparr>tokens = 0, last_refill = 0\<rparr>),
       (False, \<lfloor>6284092503307669 / 2 ^ 52 :: real\<rfloor> + 1))"
    by (rule call_double_rejected [OF _ el rf sm _ u q]) (simp_all add: lookup_or_create_def)
  then have "check_rate_limit_double 0 ''u1-1.2.3.4'' ?s = (?s, (False, 2))" by simp
  moreover have "fdiv (fsub 1 0) REFILL_RATE_double = 6284092503307669 / 2 ^ 52"
    using u q by (simp add: fdiv_def fsub_def)
  ultimately show ?thesis by blast
qed

subsection \<open>Splitting a list at a separator\<close>

lemma sep_prefix_inj:
  "c \<notin> set p1 \<Longrightarrow> c \<notin> set p2 \<Longrightarrow> p1 @ c # q1 = p2 @ c # q2 \<Longrightarrow> p1 = p2 \<and> q1 = q2"
proof (induction p1 arbitrary: p2)
  case Nil
  then show ?case by (cases p2) auto
next
  case (Cons x xs)
  then show ?case by (cases p2) auto
qed

lemma sep_suffix_inj:
  assumes "c \<notin> set a1" "c \<notin> set a2" "u1 @ c # a1 = u2 @ c # a2"
  shows "u1 = u2 \<and> a1 = a2"
proof -
  from assms(3) have "rev (u1 @ c # a1) = rev (u2 @ c # a2)" by simp
  then have "rev a1 @ c # rev u1 = rev a2 @ c # rev u2" by simp
  moreover have "c \<notin> set (rev a1)" "c \<notin> set (rev a2)" using assms by simp_all
  ultimately have "rev a1 = rev a2 \<and> rev u1 = rev u2"
    by (rule sep_prefix_inj [rotated 2])
  then show ?thesis by simp
qed

section \<open>Claims\<close>

text \<open>
  C7. Every call leaves the bucket of its key with \<open>last_refill\<close> equal to the clock
  reading of the call, whatever the store was and whatever the call returns: admitted,
  rejected, or the division error of a zero rate.
\<close>

theorem C7_last_refill_is_now:
  "\<exists>b. fst (check_rate_limit_with burst rate now key s) key = Some b \<and> last_refill b = now"
  by (simp add: check_store_key consume_last_refill refill_last_refill)

text \<open>
  C8. A call on \<open>key\<close> leaves the bucket stored under every other key as it was (tokens
  and last refill alike), and every key of the store before the call is a key of the
  store after it.
\<close>

theorem C8_other_keys_unchanged:
  "(k \<noteq> key \<longrightarrow> fst (check_rate_limit_with burst rate now key s) k = s k) \<and>
   dom s \<subseteq> dom (fst (check_rate_limit_with burst rate now key s))"
proof
  show "k \<noteq> key \<longrightarrow> fst (check_rate_limit_with burst rate now key s) k = s k"
    by (simp add: check_store_other)
next
  show "dom s \<subseteq> dom (fst (check_rate_limit_with burst rate now key s))"
  proof
    fix x assume x: "x \<in> dom s"
    show "x \<in> dom (fst (check_rate_limit_with burst rate now key s))"
    proof (cases "x = key")
      case True
      then show ?thesis by (simp add: check_store_key domIff)
    next
      case False
      with x show ?thesis by (simp add: check_store_other domIff)
    qed
  qed
qed

theorem C8_other_keys_unchanged_witness:
  "fst (check_rate_limit 5 ''u1-1.2.3.4'' [''u2-1.2.3.4'' \<mapsto> \<lparr>tokens = 3, last_refill = 2\<rparr>])
     ''u2-1.2.3.4'' = Some \<lparr>tokens = 3, last_refill = 2\<rparr> \<and>
   ''u2-1.2.3.4'' \<in> dom (fst (check_rate_limit 5 ''u1-1.2.3.4''
     [''u2-1.2.3.4'' \<mapsto> \<lparr>tokens = 3, last_refill = 2\<rparr>]))"
  using C8_other_keys_unchanged [of "''u2-1.2.3.4''" "''u1-1.2.3.4''" BURST_LIMIT REFILL_RATE 5
      "[''u2-1.2.3.4'' \<mapsto> \<lparr>tokens = 3, last_refill = 2\<rparr>]"]
  by (auto simp: check_rate_limit_def)

text \<open>
  C6 (amended). The key is the user identifier, a hyphen and the address, and the hyphen
  may occur in either part, so two different pairs can share a key. The function is
  injective on the pairs whose client address has no hyphen (every IPv4 and IPv6 address
  in its usual notation): there, two keys are equal exactly when the user identifiers are
  equal and the addresses are equal.
\<close>

theorem C6_key_injective_without_dash:
  assumes "CHR ''-'' \<notin> set (host (client r1))" "CHR ''-'' \<notin> set (host (client r2))"
  shows "get_client_key r1 u1 = get_client_key r2 u2 \<longleftrightarrow>
           u1 = u2 \<and> host (client r1) = host (client r2)"
  using assms sep_suffix_inj [of "CHR ''-''" "host (client r1)" "host (client r2)" u1 u2]
  by (auto simp: get_client_key_def Let_def)

theorem C6_key_injective_without_dash_witness:
  "CHR ''-'' \<notin> set ''1.2.3.4'' \<and> CHR ''-'' \<notin> set ''1.2.3.5'' \<and>
   get_client_key \<lparr>client = \<lparr>host = ''1.2.3.4''\<rparr>\<rparr> ''u-1'' \<noteq>
   get_client_key \<lparr>client = \<lparr>host = ''1.2.3.5''\<rparr>\<rparr> ''u-1''"
  using C6_key_injective_without_dash [of "\<lparr>client = \<lparr>host = ''1.2.3.4''\<rparr>\<rparr>"
      "\<lparr>client = \<lparr>host = ''1.2.3.5''\<rparr>\<rparr>" "''u-1''" "''u-1''"]
  by simp

text \<open>
  C6 as stated fails: the user \<open>a-b\<close> at address \<open>c\<close> and the user \<open>a\<close> at address
  \<open>b-c\<close> get the same key \<open>a-b-c\<close>.
\<close>

theorem C6_key_collision:
  "get_client_key \<lparr>client = \<lparr>host = ''c''\<rparr>\<rparr> ''a-b'' =
   get_client_key \<lparr>client = \<lparr>host = ''b-c''\<rparr>\<rparr> ''a'' \<and>
   ''a-b'' \<noteq> ''a'' \<and> ''c'' \<noteq> ''b-c''"
  by (simp add: get_client_key_def)

text \<open>
  C2 (amended). Line 56 takes the plain difference \<open>now - last_refill\<close>; nothing clamps
  it. When the clock reading is earlier than the bucket's last refill and the rate is
  positive, the refill of lines 57-59 is not positive: the refilled token count is
  \<open>min capacity (tokens + (now - last_refill) * rate)\<close>, which is not above the count
  before the call, and the count the call leaves in the store is no larger. A clock that
  moves backwards therefore never raises the token count; that it can lower it is the
  run after the theorem.
\<close>

theorem C2_backward_clock_never_raises_tokens:
  assumes "s key = Some b" and "now < last_refill b" and "0 < rate"
  shows "tokens (refill_bucket burst rate now b) =
           min (real_of_int burst) (tokens b + (now - last_refill b) * rate) \<and>
         tokens (refill_bucket burst rate now b) \<le> tokens b \<and>
         (\<exists>b1. fst (check_rate_limit_with burst rate now key s) key = Some b1 \<and>
               tokens b1 \<le> tokens (refill_bucket burst rate now b))"
proof -
  have neg: "(now - last_refill b) * rate \<le> 0"
    using assms(2,3) by (simp add: mult_le_0_iff)
  have "tokens (refill_bucket burst rate now b) \<le> tokens b + (now - last_refill b) * rate"
    by (simp add: refill_tokens)
  with neg have lt: "tokens (refill_bucket burst rate now b) \<le> tokens b" by linarith
  have b0: "lookup_or_create burst now key s = b"
    using assms(1) by (simp add: lookup_or_create_def)
  have st: "fst (check_rate_limit_with burst rate now key s) key =
      Some (fst (consume rate (refill_bucket burst rate now b)))"
    by (simp only: check_store_key b0)
  have "\<exists>b1. fst (check_rate_limit_with burst rate now key s) key = Some b1 \<and>
          tokens b1 \<le> tokens (refill_bucket burst rate now b)"
    using st consume_tokens_le by blast
  with lt refill_tokens show ?thesis by blast
qed

theorem C2_backward_clock_never_raises_tokens_witness:
  "(80::real) < 100 \<and> (0::real) < REFILL_RATE \<and>
   tokens (refill_bucket BURST_LIMIT REFILL_RATE 80 \<lparr>tokens = 5, last_refill = 100\<rparr>) = - 28 / 3"
  using C2_backward_clock_never_raises_tokens [of "[''u1-1.2.3.4'' \<mapsto> \<lparr>tokens = 5, last_refill = 100\<rparr>]"
      "''u1-1.2.3.4''" "\<lparr>tokens = 5, last_refill = 100\<rparr>" 80 REFILL_RATE BURST_LIMIT]
  by (simp add: REFILL_RATE_def RATE_LIMIT_def BURST_LIMIT_def)

text \<open>
  C2 as stated fails: a bucket with 5 tokens, last refilled at 100, called at clock reading
  80, is refilled by \<open>-20 * 43/60\<close> to \<open>-28/3\<close> tokens, and the call rejects. With the
  elapsed time clamped to 0 the bucket would have kept its 5 tokens and admitted.
\<close>

theorem C2_backward_clock_counterexample:
  "check_rate_limit 80 ''u1-1.2.3.4'' [''u1-1.2.3.4'' \<mapsto> \<lparr>tokens = 5, last_refill = 100\<rparr>] =
     ([''u1-1.2.3.4'' \<mapsto> \<lparr>tokens = - 28 / 3, last_refill = 80\<rparr>], Inr (False, 15))"
  by (simp add: crl_defs)

text \<open>
  C10. When a call returns \<open>(False, r)\<close>, the bucket it leaves under its key holds exactly
  the refilled count \<open>min capacity (tokens + elapsed * rate)\<close> of the bucket it worked on
  (the stored one, or the full one created for a new key): nothing is subtracted. With a
  capacity of at least 1, a rate that is not negative and a clock reading not earlier than
  the last refill, that count is not below the count before the call.
\<close>

theorem C10_rejection_keeps_refilled_tokens:
  assumes "check_rate_limit_with burst rate now key s = (s1, Inr (False, r))"
  shows "\<exists>b1. s1 key = Some b1 \<and>
           tokens b1 = min (real_of_int burst)
             (tokens (lookup_or_create burst now key s) +
              (now - last_refill (lookup_or_create burst now key s)) * rate) \<and>
           (1 \<le> burst \<and> 0 \<le> rate \<and> last_refill (lookup_or_create burst now key s) \<le> now
              \<longrightarrow> tokens (lookup_or_create burst now key s) \<le> tokens b1)"
proof -
  let ?old = "lookup_or_create burst now key s"
  let ?new = "refill_bucket burst rate now ?old"
  from assms have res: "snd (consume rate ?new) = Inr (False, r)"
    using check_result [of burst rate now key s] by simp
  from assms have st: "s1 key = Some (fst (consume rate ?new))"
    using check_store_key [of burst rate now key s] by simp
  from consume_rejects [OF res] have same: "fst (consume rate ?new) = ?new" and low: "tokens ?new < 1"
    by simp_all
  have "tokens ?old \<le> tokens ?new"
    if "1 \<le> burst" "0 \<le> rate" "last_refill ?old \<le> now"
  proof -
    have "0 \<le> (now - last_refill ?old) * rate" using that by simp
    moreover have "tokens ?new = tokens ?old + (now - last_refill ?old) * rate"
      using low that(1) by (simp add: refill_tokens min_def split: if_splits)
    ultimately show ?thesis by linarith
  qed
  then have keep: "1 \<le> burst \<and> 0 \<le> rate \<and> last_refill ?old \<le> now \<longrightarrow> tokens ?old \<le> tokens ?new"
    by blast
  have "s1 key = Some ?new" using st same by simp
  moreover have "tokens ?new = min (real_of_int burst) (tokens ?old + (now - last_refill ?old) * rate)"
    by (rule refill_tokens)
  ultimately show ?thesis using keep by blast
qed

theorem C10_rejection_keeps_refilled_tokens_witness:
  "check_rate_limit_with BURST_LIMIT REFILL_RATE 30 ''u1-1.2.3.4''
     [''u1-1.2.3.4'' \<mapsto> \<lparr>tokens = 1 / 4, last_refill = 30\<rparr>] =
     ([''u1-1.2.3.4'' \<mapsto> \<lparr>tokens = 1 / 4, last_refill = 30\<rparr>], Inr (False, 2)) \<and>
   (\<exists>b1. [''u1-1.2.3.4'' \<mapsto> \<lparr>tokens = 1 / 4, last_refill = 30\<rparr>] ''u1-1.2.3.4'' = Some b1 \<and>
      1 / 4 \<le> tokens b1)"
proof -
  have run: "check_rate_limit_with BURST_LIMIT REFILL_RATE 30 ''u1-1.2.3.4''
     [''u1-1.2.3.4'' \<mapsto> \<lparr>tokens = 1 / 4, last_refill = 30\<rparr>] =
     ([''u1-1.2.3.4'' \<mapsto> \<lparr>tokens = 1 / 4, last_refill = 30\<rparr>], Inr (False, 2))"
    by (simp add: crl_defs)
  from C10_rejection_keeps_refilled_tokens [OF run] show ?thesis
    using run by (simp add: lookup_or_create_def BURST_LIMIT_def REFILL_RATE_def RATE_LIMIT_def)
qed

text \<open>
  C1. For a capacity \<open>C\<close> of at least 1 and a positive rate, on a key the store does not
  hold, \<open>C\<close> calls at one clock reading each return \<open>(True, 0)\<close> and the next call at
  that reading returns \<open>(False, r)\<close> with \<open>r = int(1 / rate) + 1\<close>, which is at least 1.
  The instance below the theorem is the source's configuration: capacity 11, rate 43/60,
  eleven admissions and then \<open>(False, 2)\<close>.
\<close>

theorem C1_burst_then_reject:
  assumes "1 \<le> C" and "0 < rate" and "s key = None"
  shows "snd (run_calls C rate s (replicate (nat C) (now, key) @ [(now, key)])) =
           replicate (nat C) (Inr (True, 0)) @ [Inr (False, py_int (1 / rate) + 1)] \<and>
         1 \<le> py_int (1 / rate) + 1"
proof -
  let ?s1 = "s(key \<mapsto> \<lparr>tokens = 0, last_refill = now\<rparr>)"
  have last: "check_rate_limit_with C rate now key ?s1 = (?s1, Inr (False, py_int (1 / rate) + 1))"
    using assms(1,2) by (intro empty_bucket_call) simp_all
  have "0 \<le> \<lfloor>1 / rate\<rfloor>" using assms(2) by simp
  then have "1 \<le> py_int (1 / rate) + 1" using assms(2) by (simp add: py_int_pos)
  moreover have "run_calls C rate s (replicate (nat C) (now, key)) =
      (?s1, replicate (nat C) (Inr (True, 0)))"
    using burst_run [of C s key rate now] assms(1,3) by simp
  ultimately show ?thesis
    using last by (simp add: run_calls_append)
qed

theorem C1_burst_then_reject_witness:
  "1 \<le> BURST_LIMIT \<and> 0 < REFILL_RATE \<and>
   snd (run_calls BURST_LIMIT REFILL_RATE Map.empty (replicate 11 (0, ''u1-1.2.3.4'') @ [(0, ''u1-1.2.3.4'')])) =
     replicate 11 (Inr (True, 0)) @ [Inr (False, 2)]"
  using C1_burst_then_reject [of BURST_LIMIT REFILL_RATE Map.empty "''u1-1.2.3.4''" 0]
  by (simp add: BURST_LIMIT_def REFILL_RATE_def RATE_LIMIT_def py_int_def)

text \<open>
  C3 (amended). Line 67 returns \<open>int(retry_after) + 1\<close>, and line 66 computes
  \<open>retry_after\<close> in doubles. A rejecting call leaves its bucket with the refilled count
  \<open>tokens < 1\<close> and returns \<open>r = floor q + 1\<close>, where \<open>q\<close> is the double the source
  computes: \<open>1 - tokens\<close> rounded, divided by the rate, rounded. That is at least 1; it is
  the ceiling of \<open>q\<close> when \<open>q\<close> is not a whole number, and the ceiling plus one when it
  is.
\<close>

theorem C3_retry_after_truncated_quotient:
  assumes "check_rate_limit_double now key s = (s1, (False, r))"
  shows "\<exists>b1. s1 key = Some b1 \<and> tokens b1 < 1 \<and>
           r = \<lfloor>fdiv (fsub 1 (tokens b1)) REFILL_RATE_double\<rfloor> + 1 \<and> 1 \<le> r \<and>
           (fdiv (fsub 1 (tokens b1)) REFILL_RATE_double \<notin> \<int> \<longrightarrow>
              r = \<lceil>fdiv (fsub 1 (tokens b1)) REFILL_RATE_double\<rceil>) \<and>
           (fdiv (fsub 1 (tokens b1)) REFILL_RATE_double \<in> \<int> \<longrightarrow>
              r = \<lceil>fdiv (fsub 1 (tokens b1)) REFILL_RATE_double\<rceil> + 1)"
proof -
  from rejected_call_double [OF assms] obtain b1 where
    b1: "s1 key = Some b1" "tokens b1 < 1"
      "r = \<lfloor>fdiv (fsub 1 (tokens b1)) REFILL_RATE_double\<rfloor> + 1"
    by blast
  let ?q = "fdiv (fsub 1 (tokens b1)) REFILL_RATE_double"
  have "0 \<le> \<lfloor>?q\<rfloor>" using retry_quotient_nonneg [OF b1(2)] by simp
  then have "1 \<le> r" using b1(3) by simp
  with b1 floor_succ_ceiling [of ?q] show ?thesis by auto
qed

theorem C3_retry_after_truncated_quotient_witness:
  "check_rate_limit_double 0 ''u1-1.2.3.4'' [''u1-1.2.3.4'' \<mapsto> \<lparr>tokens = 0, last_refill = 0\<rparr>] =
     ([''u1-1.2.3.4'' \<mapsto> \<lparr>tokens = 0, last_refill = 0\<rparr>], (False, 2)) \<and>
   fdiv (fsub 1 0) REFILL_RATE_double \<notin> \<int> \<and>
   (2::int) = \<lceil>fdiv (fsub 1 0) REFILL_RATE_double\<rceil>"
proof -
  let ?q = "fdiv (fsub 1 0) REFILL_RATE_double"
  from empty_bucket_call_double
  have run: "check_rate_limit_double 0 ''u1-1.2.3.4''
      [''u1-1.2.3.4'' \<mapsto> \<lparr>tokens = 0, last_refill = 0\<rparr>] =
      ([''u1-1.2.3.4'' \<mapsto> \<lparr>tokens = 0, last_refill = 0\<rparr>], (False, 2))"
    and q: "?q = 6284092503307669 / 2 ^ 52"
    by simp_all
  have frac: "?q \<notin> \<int>"
  proof
    assume "?q \<in> \<int>"
    then have "of_int \<lfloor>?q\<rfloor> = ?q" by (rule Ints_cases) simp
    then show False by (simp add: q)
  qed
  from C3_retry_after_truncated_quotient [OF run] frac
  have "(2::int) = \<lceil>?q\<rceil>" by auto
  with run frac show ?thesis by blast
qed

text \<open>
  C3 as stated fails where the quotient is a whole number. From the empty store, eleven
  calls at clock reading 0 empty the bucket; a call at the reading
  \<open>7121971503748691 / 2 ^ 54\<close> (the double nearest 17/43) refills it to
  \<open>2552039788843281 / 2 ^ 53\<close> tokens. One minus that count is the rate itself, so the
  quotient is 1, as the doubles compute it and exactly: its ceiling is 1 and it does not
  truncate to 0, yet the call returns 2.
\<close>

theorem C3_whole_second_counterexample:
  "run_calls_double rate_limit_store
     (replicate 11 (0, ''u1-1.2.3.4'') @ [(7121971503748691 / 2 ^ 54, ''u1-1.2.3.4'')]) =
     ([''u1-1.2.3.4'' \<mapsto>
         \<lparr>tokens = 2552039788843281 / 2 ^ 53, last_refill = 7121971503748691 / 2 ^ 54\<rparr>],
      replicate 11 (True, 0) @ [(False, 2)]) \<and>
   fdiv (fsub 1 (2552039788843281 / 2 ^ 53)) REFILL_RATE_double = 1 \<and>
   \<lceil>(1 - 2552039788843281 / 2 ^ 53) / REFILL_RATE_double\<rceil> = (1::int)"
proof -
  let ?s = "[''u1-1.2.3.4'' \<mapsto> \<lparr>tokens = 0, last_refill = 0\<rparr>]"
  let ?b = "\<lparr>tokens = 0, last_refill = 0 :: real\<rparr>"
  have el: "round_double (7121971503748691 / 2 ^ 54 - last_refill ?b) = 7121971503748691 / 2 ^ 54"
    by (subst rd_eval [of "- 2"]) (simp_all add: rne_def)
  have rf: "round_double (7121971503748691 / 2 ^ 54 * REFILL_RATE_double) = 2552039788843281 / 2 ^ 53"
    unfolding rate_double_value by (subst rd_eval [of "- 2"]) (simp_all add: rne_def)
  have sm: "round_double (tokens ?b + 2552039788843281 / 2 ^ 53) = 2552039788843281 / 2 ^ 53"
    by (subst rd_eval [of "- 2"]) (simp_all add: rne_def)
  have u: "round_double (1 - 2552039788843281 / 2 ^ 53) = 6455159465897711 / 2 ^ 53"
    by (subst rd_eval [of "- 1"]) (simp_all add: rne_def)
  have q: "round_double (6455159465897711 / 2 ^ 53 / REFILL_RATE_double) = 1"
    unfolding rate_double_value by (simp add: round_double_one)
  have "check_rate_limit_double (7121971503748691 / 2 ^ 54) ''u1-1.2.3.4'' ?s =
      (?s(''u1-1.2.3.4'' \<mapsto>
         \<lparr>tokens = 2552039788843281 / 2 ^ 53, last_refill = 7121971503748691 / 2 ^ 54\<rparr>),
       (False, \<lfloor>1 :: real\<rfloor> + 1))"
    by (rule call_double_rejected [OF _ el rf sm _ u q]) (simp_all add: lookup_or_create_def)
  then have last: "check_rate_limit_double (7121971503748691 / 2 ^ 54) ''u1-1.2.3.4'' ?s =
      ([''u1-1.2.3.4'' \<mapsto>
         \<lparr>tokens = 2552039788843281 / 2 ^ 53, last_refill = 7121971503748691 / 2 ^ 54\<rparr>],
       (False, 2))"
    by simp
  have run: "run_calls_double rate_limit_store
     (replicate 11 (0, ''u1-1.2.3.4'') @ [(7121971503748691 / 2 ^ 54, ''u1-1.2.3.4'')]) =
     ([''u1-1.2.3.4'' \<mapsto>
         \<lparr>tokens = 2552039788843281 / 2 ^ 53, last_refill = 7121971503748691 / 2 ^ 54\<rparr>],
      replicate 11 (True, 0) @ [(False, 2)])"
    by (simp only: run_calls_double_append eleven_calls run_calls_double.simps fst_conv snd_conv
        last Let_def prod.case)
  have quot: "fdiv (fsub 1 (2552039788843281 / 2 ^ 53)) REFILL_RATE_double = 1"
    unfolding fdiv_def fsub_def u by (rule q)
  have "\<lceil>(1 - 2552039788843281 / 2 ^ 53) / REFILL_RATE_double\<rceil> = (1::int)"
    unfolding rate_double_value by simp
  with run quot show ?thesis by blast
qed

text \<open>
  C5 (amended). When a call on a key returns \<open>(False, r)\<close> at clock reading \<open>now\<close> and
  the bucket it leaves holds a token count that is not negative, a call on that key at
  reading \<open>now + r\<close> returns \<open>(True, 0)\<close>, from every store that still holds that bucket
  under the key (no call on the key in between; calls on other keys are free).
\<close>

theorem C5_admitted_after_retry_after:
  assumes "check_rate_limit_double now key s = (s1, (False, r))"
    and "s1 key = Some b1" and "0 \<le> tokens b1"
    and "s2 key = s1 key"
  shows "snd (check_rate_limit_double (now + real_of_int r) key s2) = (True, 0)"
proof -
  let ?d = "REFILL_RATE_double"
  let ?t = "tokens b1"
  let ?q = "fdiv (fsub 1 ?t) ?d"
  from rejected_call_double [OF assms(1)] assms(2)
  have t1: "?t < 1" and last: "last_refill b1 = now" and r: "r = \<lfloor>?q\<rfloor> + 1"
    by auto
  have d: "1 / 2 \<le> ?d" "?d \<le> 1" using rate_double_bounds by simp_all
  have q0: "0 \<le> \<lfloor>?q\<rfloor>" using retry_quotient_nonneg [OF t1] by simp
  have look: "lookup_or_create BURST_LIMIT (now + real_of_int r) key s2 = b1"
    using assms(2,4) by (simp add: lookup_or_create_def)
  have el: "fsub (now + real_of_int r) (last_refill b1) = round_double (real_of_int r)"
    by (simp add: fsub_def last)
  have gain: "1 \<le> fadd ?t (fmul (round_double (real_of_int r)) ?d)"
  proof (cases "\<lfloor>?q\<rfloor> = 0")
    case True
    then have r1: "r = 1" using r by simp
    have "?q < 1" using True by (simp add: floor_eq_iff)
    then have "\<not> 1 \<le> round_double (fsub 1 ?t / ?d)" by (simp add: fdiv_def)
    then have "fsub 1 ?t / ?d < 1 - 2 powi (- 54)"
      using round_double_near_one [of "fsub 1 ?t / ?d"] by linarith
    then have u: "fsub 1 ?t < (1 - 2 powi (- 54)) * ?d"
      using d(1) by (simp add: pos_divide_less_eq)
    have "(1 - ?t) - fsub 1 ?t \<le> 2 powi (- 54)"
      unfolding fsub_def using t1 assms(3) by (intro round_double_below_one) simp_all
    then have "1 - ?t < (1 - 2 powi (- 54)) * ?d + 2 powi (- 54)" using u by linarith
    also have "\<dots> = ?d + 2 powi (- 54) * (1 - ?d)" by (rule margin_split)
    also have "\<dots> \<le> ?d + 2 powi (- 54)"
    proof -
      have "(2::real) powi (- 54) * (1 - ?d) \<le> 2 powi (- 54) * 1"
        using d(1) by (intro mult_left_mono) simp_all
      then show ?thesis by simp
    qed
    finally have "1 - 2 powi (- 54) \<le> ?t + ?d" by linarith
    then have "1 \<le> round_double (?t + ?d)" by (rule round_double_near_one)
    then show ?thesis
      by (simp add: r1 fadd_def fmul_def round_double_one rate_double_fixed)
  next
    case False
    then have "2 \<le> r" using q0 r by linarith
    then have "(2::real) powi 1 \<le> real_of_int r" by simp
    then have "2 powi 1 \<le> round_double (real_of_int r)"
      by (intro round_double_ge_pow) simp_all
    then have "2 \<le> round_double (real_of_int r)" by simp
    then have "2 * ?d \<le> round_double (real_of_int r) * ?d"
      using d(1) by (intro mult_right_mono) simp_all
    then have "1 \<le> round_double (real_of_int r) * ?d" using d(1) by linarith
    then have "1 \<le> fmul (round_double (real_of_int r)) ?d"
      unfolding fmul_def by (rule round_double_ge_one)
    then have "1 \<le> ?t + fmul (round_double (real_of_int r)) ?d" using assms(3) by linarith
    then show ?thesis unfolding fadd_def by (rule round_double_ge_one)
  qed
  have "1 \<le> tokens (refill_bucket_double (now + real_of_int r) b1)"
    using gain by (simp add: refill_double_tokens el BURST_LIMIT_def)
  then show ?thesis
    by (simp add: check_double_result look consume_double_admits)
qed

theorem C5_admitted_after_retry_after_witness:
  "check_rate_limit_double 0 ''u1-1.2.3.4'' [''u1-1.2.3.4'' \<mapsto> \<lparr>tokens = 0, last_refill = 0\<rparr>] =
     ([''u1-1.2.3.4'' \<mapsto> \<lparr>tokens = 0, last_refill = 0\<rparr>], (False, 2)) \<and>
   snd (check_rate_limit_double (0 + real_of_int 2) ''u1-1.2.3.4''
     [''u1-1.2.3.4'' \<mapsto> \<lparr>tokens = 0, last_refill = 0\<rparr>]) = (True, 0)"
proof -
  from empty_bucket_call_double
  have run: "check_rate_limit_double 0 ''u1-1.2.3.4''
      [''u1-1.2.3.4'' \<mapsto> \<lparr>tokens = 0, last_refill = 0\<rparr>] =
      ([''u1-1.2.3.4'' \<mapsto> \<lparr>tokens = 0, last_refill = 0\<rparr>], (False, 2))"
    by simp
  from C5_admitted_after_retry_after [OF run, of "\<lparr>tokens = 0, last_refill = 0\<rparr>"
      "[''u1-1.2.3.4'' \<mapsto> \<lparr>tokens = 0, last_refill = 0\<rparr>]"] run
  show ?thesis by simp
qed

text \<open>
  C5 as stated fails after the clock has moved backwards. From the empty store, ten calls
  at reading 4096 leave one token; a call at 4094 and a call at 1237 take the count to
  \<open>- 9006979352415437 / 2 ^ 42\<close> (about -2047.95), and the second returns
  \<open>(False, 2859)\<close>: the rounded quotient is just below 2859. The call 2859 seconds later
  finds \<open>1 - 2 ^ - 42\<close> tokens and is rejected.
\<close>

theorem C5_backward_clock_counterexample:
  "snd (run_calls_double rate_limit_store
     (replicate 10 (4096, ''u1-1.2.3.4'') @
      [(4094, ''u1-1.2.3.4''), (1237, ''u1-1.2.3.4''), (1237 + 2859, ''u1-1.2.3.4'')])) =
   replicate 10 (True, 0) @ [(False, 3), (False, 2859), (False, 1)]"
proof -
  let ?k = "''u1-1.2.3.4''"
  let ?s0 = "[?k \<mapsto> \<lparr>tokens = 1, last_refill = 4096 :: real\<rparr>]"
  let ?s1 = "[?k \<mapsto> \<lparr>tokens = - 1951559838527215 / 2 ^ 52, last_refill = 4094 :: real\<rparr>]"
  let ?s2 = "[?k \<mapsto> \<lparr>tokens = - 9006979352415437 / 2 ^ 42, last_refill = 1237 :: real\<rparr>]"
  let ?s3 = "[?k \<mapsto> \<lparr>tokens = 4398046511103 / 2 ^ 42, last_refill = 1237 + 2859 :: real\<rparr>]"
  have c1: "check_rate_limit_double 4094 ?k ?s0 = (?s1, (False, 3))"
  proof -
    let ?b = "\<lparr>tokens = 1, last_refill = 4096 :: real\<rparr>"
    have el: "round_double (4094 - last_refill ?b) = - 2"
      by (subst rd_eval [of 1]) (simp_all add: rne_def)
    have rf: "round_double (- 2 * REFILL_RATE_double) = - 6455159465897711 / 2 ^ 52"
      unfolding rate_double_value by (subst rd_eval [of 0]) (simp_all add: rne_def)
    have sm: "round_double (tokens ?b + - 6455159465897711 / 2 ^ 52) = - 1951559838527215 / 2 ^ 52"
      by (subst rd_eval [of "- 2"]) (simp_all add: rne_def)
    have u: "round_double (1 - - 1951559838527215 / 2 ^ 52) = 6455159465897711 / 2 ^ 52"
      by (subst rd_eval [of 0]) (simp_all add: rne_def)
    have q: "round_double (6455159465897711 / 2 ^ 52 / REFILL_RATE_double) = 2"
      unfolding rate_double_value by (subst rd_eval [of 1]) (simp_all add: rne_def)
    have "check_rate_limit_double 4094 ?k ?s0 =
        (?s0(?k \<mapsto> \<lparr>tokens = - 1951559838527215 / 2 ^ 52, last_refill = 4094\<rparr>),
         (False, \<lfloor>2 :: real\<rfloor> + 1))"
      by (rule call_double_rejected [OF _ el rf sm _ u q]) (simp_all add: lookup_or_create_def)
    then show ?thesis by simp
  qed
  have c2: "check_rate_limit_double 1237 ?k ?s1 = (?s2, (False, 2859))"
  proof -
    let ?b = "\<lparr>tokens = - 1951559838527215 / 2 ^ 52, last_refill = 4094 :: real\<rparr>"
    have el: "round_double (1237 - last_refill ?b) = - 2857"
      by (subst rd_eval [of 11]) (simp_all add: rne_def)
    have rf: "round_double (- 2857 * REFILL_RATE_double) = - 9005073532260625 / 2 ^ 42"
      unfolding rate_double_value by (subst rd_eval [of 10]) (simp_all add: rne_def)
    have sm: "round_double (tokens ?b + - 9005073532260625 / 2 ^ 42) = - 9006979352415437 / 2 ^ 42"
      by (subst rd_eval [of 10]) (simp_all add: rne_def)
    have u: "round_double (1 - - 9006979352415437 / 2 ^ 42) = 2252844349731635 / 2 ^ 40"
      by (subst rd_eval [of 11]) (simp_all add: rne_def)
    have q: "round_double (2252844349731635 / 2 ^ 40 / REFILL_RATE_double) = 6287007487623167 / 2 ^ 41"
      unfolding rate_double_value by (subst rd_eval [of 11]) (simp_all add: rne_def)
    have "check_rate_limit_double 1237 ?k ?s1 =
        (?s1(?k \<mapsto> \<lparr>tokens = - 9006979352415437 / 2 ^ 42, last_refill = 1237\<rparr>),
         (False, \<lfloor>6287007487623167 / 2 ^ 41 :: real\<rfloor> + 1))"
      by (rule call_double_rejected [OF _ el rf sm _ u q]) (simp_all add: lookup_or_create_def)
    then show ?thesis by simp
  qed
  have c3: "check_rate_limit_double (1237 + 2859) ?k ?s2 = (?s3, (False, 1))"
  proof -
    let ?b = "\<lparr>tokens = - 9006979352415437 / 2 ^ 42, last_refill = 1237 :: real\<rparr>"
    have el: "round_double (1237 + 2859 - last_refill ?b) = 2859"
      by (subst rd_eval [of 11]) (simp_all add: rne_def)
    have rf: "round_double (2859 * REFILL_RATE_double) = 2252844349731635 / 2 ^ 40"
      unfolding rate_double_value by (subst rd_eval [of 11]) (simp_all add: rne_def)
    have sm: "round_double (tokens ?b + 2252844349731635 / 2 ^ 40) = 4398046511103 / 2 ^ 42"
      by (subst rd_eval [of "- 1"]) (simp_all add: rne_def)
    have u: "round_double (1 - 4398046511103 / 2 ^ 42) = 1 / 2 ^ 42"
      by (subst rd_eval [of "- 42"]) (simp_all add: rne_def)
    have q: "round_double (1 / 2 ^ 42 / REFILL_RATE_double) = 6284092503307669 / 2 ^ 94"
      unfolding rate_double_value by (subst rd_eval [of "- 42"]) (simp_all add: rne_def)
    have "check_rate_limit_double (1237 + 2859) ?k ?s2 =
        (?s2(?k \<mapsto> \<lparr>tokens = 4398046511103 / 2 ^ 42, last_refill = 1237 + 2859\<rparr>),
         (False, \<lfloor>6284092503307669 / 2 ^ 94 :: real\<rfloor> + 1))"
      by (rule call_double_rejected [OF _ el rf sm _ u q]) (simp_all add: lookup_or_create_def)
    then show ?thesis by simp
  qed
  show ?thesis
    by (simp only: run_calls_double_append ten_calls run_calls_double.simps fst_conv snd_conv
        c1 c2 c3 Let_def prod.case)
qed

text \<open>
  C4 (amended). Started from the empty store with a capacity and a rate that are not
  negative, after every call of every run each bucket holds at most \<open>capacity\<close> tokens,
  whatever the clock readings are; and when the clock readings of the run never decrease,
  each bucket holds at least 0 tokens. The store after the first \<open>n\<close> calls of the run
  \<open>cs\<close> is the store of the run \<open>take n cs\<close>.
\<close>

theorem C4_tokens_bounded:
  assumes "0 \<le> C" and "0 \<le> rate"
    and "fst (run_calls C rate rate_limit_store (take n cs)) k = Some b"
  shows "tokens b \<le> real_of_int C \<and> (sorted (map fst cs) \<longrightarrow> 0 \<le> tokens b)"
proof
  show "tokens b \<le> real_of_int C"
    using assms(3) by (rule run_keeps_upper [rotated]) (simp add: rate_limit_store_def)
next
  show "sorted (map fst cs) \<longrightarrow> 0 \<le> tokens b"
  proof
    assume "sorted (map fst cs)"
    then have srt: "sorted (map fst (take n cs))"
      by (simp add: take_map [symmetric] sorted_wrt_take)
    show "0 \<le> tokens b"
    proof (cases "take n cs")
      case Nil
      with assms(3) show ?thesis by (simp add: rate_limit_store_def)
    next
      case (Cons c cs')
      have "\<forall>c' \<in> set (take n cs). fst c \<le> fst c'" using srt Cons by auto
      with assms(1,2) srt show ?thesis
        using assms(3) run_keeps_lower [of C rate "take n cs" "fst c" rate_limit_store k b]
        by (simp add: rate_limit_store_def)
    qed
  qed
qed

theorem C4_tokens_bounded_witness:
  "0 \<le> BURST_LIMIT \<and> 0 \<le> REFILL_RATE \<and>
   sorted (map fst [(100 :: real, ''u1-1.2.3.4''), (100, ''u2-1.2.3.4''), (103, ''u1-1.2.3.4'')]) \<and>
   fst (run_calls BURST_LIMIT REFILL_RATE rate_limit_store
      (take 3 [(100, ''u1-1.2.3.4''), (100, ''u2-1.2.3.4''), (103, ''u1-1.2.3.4'')])) ''u1-1.2.3.4'' =
     Some \<lparr>tokens = 10, last_refill = 103\<rparr> \<and>
   (0 :: real) \<le> 10 \<and> (10 :: real) \<le> real_of_int BURST_LIMIT"
proof -
  have run: "fst (run_calls BURST_LIMIT REFILL_RATE rate_limit_store
      (take 3 [(100, ''u1-1.2.3.4''), (100, ''u2-1.2.3.4''), (103, ''u1-1.2.3.4'')])) ''u1-1.2.3.4'' =
     Some \<lparr>tokens = 10, last_refill = 103\<rparr>"
    by (simp add: crl_defs rate_limit_store_def)
  have cap: "0 \<le> BURST_LIMIT" by (simp add: BURST_LIMIT_def)
  have pos: "0 \<le> REFILL_RATE" by (simp add: REFILL_RATE_def RATE_LIMIT_def)
  from C4_tokens_bounded [OF cap pos run] cap pos run show ?thesis by simp
qed

text \<open>
  C4 as stated fails for a clock that moves backwards: a first call at reading 100
  leaves 10 tokens, and a second call on the same key at reading 80 refills by
  \<open>-20 * 43/60\<close> and leaves \<open>-13/3\<close> tokens.
\<close>

theorem C4_negative_tokens_counterexample:
  "fst (run_calls BURST_LIMIT REFILL_RATE rate_limit_store
      [(100, ''u1-1.2.3.4''), (80, ''u1-1.2.3.4'')]) ''u1-1.2.3.4'' =
     Some \<lparr>tokens = - 13 / 3, last_refill = 80\<rparr> \<and> (- 13 / 3 :: real) < 0"
  by (simp add: crl_defs rate_limit_store_def)

end
